theory Spec2Isabelle
  imports Main
begin

section \<open>Source text and Python string primitives\<close>

text \<open>
  The analyzer of \<^verbatim>\<open>ios-master-skills/tools/swift_syntax_analyzer.py\<close> treats its input
  as one Python \<^verbatim>\<open>str\<close>. The text is modelled as a \<^typ>\<open>string\<close>; a \<^typ>\<open>char\<close> stands for a
  code point below 256, and the character classes below are the ones Python's \<^verbatim>\<open>re\<close>
  module uses for \<^verbatim>\<open>str\<close> patterns on that range.
\<close>

datatype py_error = ValueError | IndexError | TypeError

definition newline :: char where
  "newline = CHR 0x0A"

text \<open>\<^verbatim>\<open>\s\<close>: tab, line feed, vertical tab, form feed, carriage return, the four
  separators 0x1C..0x1F, space, NEL (0x85) and the no-break space (0xA0).\<close>

definition is_space :: "char \<Rightarrow> bool" where
  "is_space c =
     (let k = (of_char c :: nat)
      in (9 \<le> k \<and> k \<le> 13) \<or> (28 \<le> k \<and> k \<le> 32) \<or> k = 133 \<or> k = 160)"

text \<open>\<^verbatim>\<open>\d\<close>: the decimal digits; below 256 these are \<^verbatim>\<open>0\<close>..\<^verbatim>\<open>9\<close> only.\<close>

definition is_digit :: "char \<Rightarrow> bool" where
  "is_digit c = (let k = (of_char c :: nat) in 48 \<le> k \<and> k \<le> 57)"

text \<open>\<^verbatim>\<open>\w\<close>: alphanumeric (in the sense of \<^verbatim>\<open>str.isalnum\<close>) or the underscore.\<close>

definition is_word :: "char \<Rightarrow> bool" where
  "is_word c =
     (let k = (of_char c :: nat)
      in (48 \<le> k \<and> k \<le> 57) \<or> (65 \<le> k \<and> k \<le> 90) \<or> k = 95 \<or> (97 \<le> k \<and> k \<le> 122)
         \<or> k = 170 \<or> k = 178 \<or> k = 179 \<or> k = 181 \<or> k = 185 \<or> k = 186
         \<or> (188 \<le> k \<and> k \<le> 190) \<or> (192 \<le> k \<and> k \<le> 214) \<or> (216 \<le> k \<and> k \<le> 246)
         \<or> (248 \<le> k \<and> k \<le> 255))"

section \<open>The regular expressions of the analyzer\<close>

text \<open>
  Only the constructs that occur in the analyzer's patterns are modelled: literals,
  an alternation of literals, the character classes, greedy \<^verbatim>\<open>*\<close> and \<^verbatim>\<open>+\<close> and lazy
  \<^verbatim>\<open>*?\<close> over one character class, the capturing group 1, a negative lookbehind for a
  literal and a negative lookahead for a character class.
\<close>

datatype cls =
    Space                \<comment> \<open>\<^verbatim>\<open>\s\<close>\<close>
  | Digit                \<comment> \<open>\<^verbatim>\<open>\d\<close>\<close>
  | Word                 \<comment> \<open>\<^verbatim>\<open>\w\<close>\<close>
  | Dot                  \<comment> \<open>\<^verbatim>\<open>.\<close> without DOTALL: anything but a line feed\<close>
  | Chr char             \<comment> \<open>one character inside a bracket expression\<close>
  | Compl cls            \<comment> \<open>the complemented class, \<^verbatim>\<open>\S\<close> for \<^verbatim>\<open>\s\<close>\<close>
  | Union cls cls        \<comment> \<open>a bracket expression \<^verbatim>\<open>[ab]\<close>\<close>

fun in_cls :: "cls \<Rightarrow> char \<Rightarrow> bool" where
  "in_cls Space c = is_space c"
| "in_cls Digit c = is_digit c"
| "in_cls Word c = is_word c"
| "in_cls Dot c = (c \<noteq> newline)"
| "in_cls (Chr d) c = (c = d)"
| "in_cls (Compl k) c = (\<not> in_cls k c)"
| "in_cls (Union k1 k2) c = (in_cls k1 c \<or> in_cls k2 c)"

datatype atom =
    Lit string           \<comment> \<open>a literal string\<close>
  | Alt "string list"    \<comment> \<open>\<^verbatim>\<open>(?:a|b)\<close>, tried left to right\<close>
  | Star cls             \<comment> \<open>greedy \<^verbatim>\<open>*\<close>\<close>
  | Plus cls             \<comment> \<open>greedy \<^verbatim>\<open>+\<close>\<close>
  | LazyStar cls         \<comment> \<open>lazy \<^verbatim>\<open>*?\<close>\<close>
  | GroupOpen            \<comment> \<open>the opening parenthesis of group 1\<close>
  | GroupClose           \<comment> \<open>the closing parenthesis of group 1\<close>
  | NotBehind string     \<comment> \<open>\<^verbatim>\<open>(?<!lit)\<close>\<close>
  | NotAhead cls         \<comment> \<open>\<^verbatim>\<open>(?![c])\<close>\<close>

type_synonym pattern = "atom list"

text \<open>
  The backtracking matcher. \<open>rmatch p pre s n gs g\<close> matches the remaining atoms \<open>p\<close>
  against the text \<open>s\<close> that starts at the current position; \<open>pre\<close> is the text before
  the current position, reversed (the lookbehind reads it), \<open>n\<close> the number of
  characters consumed since the start of the match, \<open>gs\<close> the value of \<open>n\<close> where group 1
  was opened and \<open>g\<close> the text of group 1. The result is the first success in the order
  in which a backtracking engine tries the alternatives: a greedy quantifier takes a
  character before it tries the rest, a lazy one tries the rest first.
\<close>

fun atom_weight :: "atom \<Rightarrow> nat" where
  "atom_weight (Lit l) = Suc (length l)"
| "atom_weight (Alt ls) = Suc (sum_list (map (\<lambda>l. Suc (Suc (length l))) ls))"
| "atom_weight a = 1"

function (sequential) rmatch :: "pattern \<Rightarrow> string \<Rightarrow> string \<Rightarrow> nat \<Rightarrow> nat \<Rightarrow> string option
    \<Rightarrow> (nat \<times> string option) option" where
  "rmatch [] pre s n gs g = Some (n, g)"
| "rmatch (Lit [] # as) pre s n gs g = rmatch as pre s n gs g"
| "rmatch (Lit (c # l) # as) pre [] n gs g = None"
| "rmatch (Lit (c # l) # as) pre (x # xs) n gs g =
     (if x = c then rmatch (Lit l # as) (x # pre) xs (Suc n) gs g else None)"
| "rmatch (Alt [] # as) pre s n gs g = None"
| "rmatch (Alt (l # ls) # as) pre s n gs g =
     (case rmatch (Lit l # as) pre s n gs g of
        Some r \<Rightarrow> Some r
      | None \<Rightarrow> rmatch (Alt ls # as) pre s n gs g)"
| "rmatch (Star k # as) pre [] n gs g = rmatch as pre [] n gs g"
| "rmatch (Star k # as) pre (x # xs) n gs g =
     (if in_cls k x
      then (case rmatch (Star k # as) (x # pre) xs (Suc n) gs g of
              Some r \<Rightarrow> Some r
            | None \<Rightarrow> rmatch as pre (x # xs) n gs g)
      else rmatch as pre (x # xs) n gs g)"
| "rmatch (Plus k # as) pre [] n gs g = None"
| "rmatch (Plus k # as) pre (x # xs) n gs g =
     (if in_cls k x then rmatch (Star k # as) (x # pre) xs (Suc n) gs g else None)"
| "rmatch (LazyStar k # as) pre [] n gs g = rmatch as pre [] n gs g"
| "rmatch (LazyStar k # as) pre (x # xs) n gs g =
     (case rmatch as pre (x # xs) n gs g of
        Some r \<Rightarrow> Some r
      | None \<Rightarrow>
          if in_cls k x then rmatch (LazyStar k # as) (x # pre) xs (Suc n) gs g else None)"
| "rmatch (GroupOpen # as) pre s n gs g = rmatch as pre s n n g"
| "rmatch (GroupClose # as) pre s n gs g =
     rmatch as pre s n gs (Some (rev (take (n - gs) pre)))"
| "rmatch (NotBehind l # as) pre s n gs g =
     (if take (length l) pre = rev l then None else rmatch as pre s n gs g)"
| "rmatch (NotAhead k # as) pre [] n gs g = rmatch as pre [] n gs g"
| "rmatch (NotAhead k # as) pre (x # xs) n gs g =
     (if in_cls k x then None else rmatch as pre (x # xs) n gs g)"
  by pat_completeness auto
termination
  by (relation "measures [\<lambda>(p, pre, s, n, gs, g). length s,
                          \<lambda>(p, pre, s, n, gs, g). sum_list (map atom_weight p)]") auto

text \<open>A match object: \<^verbatim>\<open>match.start()\<close>, \<^verbatim>\<open>match.end()\<close> and \<^verbatim>\<open>match.group(1)\<close>
  (\<open>None\<close> when group 1 took no part in the match).\<close>

record rmatch_obj =
  m_start :: nat
  m_end :: nat
  m_group1 :: "string option"

text \<open>
  \<^verbatim>\<open>re.finditer\<close>: the text is scanned from left to right; at each position the matcher
  is tried, and after a match the scan goes on at the end of that match, so that
  matches do not overlap. \<open>scan p skip pre pos s\<close> is at offset \<open>pos\<close> with \<open>s\<close> still to
  read and \<open>skip\<close> characters of the last match still to pass over. Every pattern of
  the analyzer consumes at least one character, so the special rule of \<^verbatim>\<open>finditer\<close>
  after an empty match never applies; here the scan moves on one character after one.
\<close>

fun scan :: "pattern \<Rightarrow> nat \<Rightarrow> string \<Rightarrow> nat \<Rightarrow> string \<Rightarrow> rmatch_obj list" where
  "scan p skip pre pos [] =
     (if skip = 0
      then (case rmatch p pre [] 0 0 None of
              None \<Rightarrow> []
            | Some (n, g) \<Rightarrow> [\<lparr>m_start = pos, m_end = pos + n, m_group1 = g\<rparr>])
      else [])"
| "scan p (Suc k) pre pos (x # xs) = scan p k (x # pre) (Suc pos) xs"
| "scan p 0 pre pos (x # xs) =
     (case rmatch p pre (x # xs) 0 0 None of
        None \<Rightarrow> scan p 0 (x # pre) (Suc pos) xs
      | Some (n, g) \<Rightarrow>
          \<lparr>m_start = pos, m_end = pos + n, m_group1 = g\<rparr> # scan p (n - 1) (x # pre) (Suc pos) xs)"

definition finditer :: "pattern \<Rightarrow> string \<Rightarrow> rmatch_obj list" where
  "finditer p code = scan p 0 [] 0 code"

text \<open>\<^verbatim>\<open>re.search\<close>: the first match of the scan, if there is one.\<close>

definition re_search :: "pattern \<Rightarrow> string \<Rightarrow> rmatch_obj option" where
  "re_search p code = (case finditer p code of [] \<Rightarrow> None | m # ms \<Rightarrow> Some m)"

section \<open>Python string operations used by the checks\<close>

text \<open>\<^verbatim>\<open>self.code[:pos].count('\n') + 1\<close>\<close>

definition line_num :: "string \<Rightarrow> nat \<Rightarrow> nat" where
  "line_num code pos = length (filter (\<lambda>c. c = newline) (take pos code)) + 1"

text \<open>\<^verbatim>\<open>s[a:b]\<close> and \<^verbatim>\<open>s[a:]\<close> for indices that are not negative.\<close>

definition py_slice :: "string \<Rightarrow> nat \<Rightarrow> nat \<Rightarrow> string" where
  "py_slice s a b = drop a (take b s)"

definition py_slice_from :: "string \<Rightarrow> nat \<Rightarrow> string" where
  "py_slice_from s a = drop a s"

text \<open>\<^verbatim>\<open>s[i]\<close> for an index that is not negative: IndexError out of range.\<close>

definition py_getitem :: "string \<Rightarrow> nat \<Rightarrow> py_error + char" where
  "py_getitem s i = (if i < length s then Inr (s ! i) else Inl IndexError)"

text \<open>\<^verbatim>\<open>s.find(c, start)\<close> and \<^verbatim>\<open>s.rfind(c, 0, end)\<close> for a one-character string \<open>c\<close>:
  the lowest (highest) index of \<open>c\<close> in the range, or \<open>-1\<close>.\<close>

fun find_acc :: "char \<Rightarrow> string \<Rightarrow> nat \<Rightarrow> int" where
  "find_acc c [] i = - 1"
| "find_acc c (x # xs) i = (if x = c then int i else find_acc c xs (Suc i))"

definition py_find :: "string \<Rightarrow> char \<Rightarrow> nat \<Rightarrow> int" where
  "py_find s c start = find_acc c (drop start s) start"

fun rfind_acc :: "char \<Rightarrow> string \<Rightarrow> nat \<Rightarrow> int \<Rightarrow> int" where
  "rfind_acc c [] i found = found"
| "rfind_acc c (x # xs) i found = rfind_acc c xs (Suc i) (if x = c then int i else found)"

definition py_rfind :: "string \<Rightarrow> char \<Rightarrow> nat \<Rightarrow> int" where
  "py_rfind s c end = rfind_acc c (take end s) 0 (- 1)"

text \<open>\<^verbatim>\<open>sub in s\<close> and \<^verbatim>\<open>s.index(sub)\<close>; the latter raises ValueError when \<open>sub\<close> does
  not occur.\<close>

fun py_contains :: "string \<Rightarrow> string \<Rightarrow> bool" where
  "py_contains sub [] = (sub = [])"
| "py_contains sub (x # xs) = (take (length sub) (x # xs) = sub \<or> py_contains sub xs)"







text \<open>\<^verbatim>\<open>match.group(1)\<close> formatted by an f-string: the string \<^verbatim>\<open>None\<close> when the group took
  no part in the match.\<close>

definition str_of_group :: "string option \<Rightarrow> string" where
  "str_of_group x = (case x of None \<Rightarrow> ''None'' | Some s \<Rightarrow> s)"

section \<open>The analyzer\<close>

record violation =
  severity :: string
  rule :: string
  message :: string
  line :: "nat option"

text \<open>The object \<^verbatim>\<open>SwiftAnalyzer\<close>: its two attributes. Every method takes the object and
  returns it updated, or the exception it raises.\<close>

record analyzer =
  self_code :: string
  self_violations :: "violation list"


definition add_violation :: "analyzer \<Rightarrow> string \<Rightarrow> string \<Rightarrow> string \<Rightarrow> nat option \<Rightarrow> analyzer" where
  "add_violation self sev rl msg ln =
     self\<lparr>self_violations :=
       self_violations self @ [\<lparr>severity = sev, rule = rl, message = msg, line = ln\<rparr>]\<rparr>"

text \<open>A \<^verbatim>\<open>for\<close> loop over a list whose body updates the analyzer or raises.\<close>

fun for_each :: "'a list \<Rightarrow> ('a \<Rightarrow> analyzer \<Rightarrow> py_error + analyzer) \<Rightarrow> analyzer
    \<Rightarrow> py_error + analyzer" where
  "for_each [] body self = Inr self"
| "for_each (x # xs) body self =
     (case body x self of Inl e \<Rightarrow> Inl e | Inr self' \<Rightarrow> for_each xs body self')"

subsection \<open>Hardcoded frame sizes\<close>

definition frame_width_pattern :: pattern where
  "frame_width_pattern =
     [Lit ''.frame(width:'', Star Space, GroupOpen, Plus Digit, GroupClose, Lit '')'']"

definition frame_height_pattern :: pattern where
  "frame_height_pattern =
     [Lit ''.frame(height:'', Star Space, GroupOpen, Plus Digit, GroupClose, Lit '')'']"

definition frame_patterns :: "(pattern \<times> string) list" where
  "frame_patterns =
     [(frame_width_pattern, ''Hardcoded frame width''),
      (frame_height_pattern, ''Hardcoded frame height'')]"

definition check_hardcoded_frame_sizes :: "analyzer \<Rightarrow> py_error + analyzer" where
  "check_hardcoded_frame_sizes self =
     for_each frame_patterns
       (\<lambda>(pat, description) self.
          for_each (finditer pat (self_code self))
            (\<lambda>m self.
               let sz = m_group1 m;
                   ln = line_num (self_code self) (m_start m)
               in Inr (add_violation self ''warning'' ''hardcoded_frame_size''
                    (description @ '': '' @ str_of_group sz
                       @ ''pt. Consider using minWidth/minHeight or semantic tokens.'')
                    (Some ln)))
            self)
       self"

subsection \<open>Hardcoded colors\<close>








subsection \<open>Hardcoded font sizes\<close>



subsection \<open>Force unwrapping\<close>

definition force_unwrap_pattern :: pattern where
  "force_unwrap_pattern =
     [NotBehind ''try'', Lit ''!'', Star Space, NotAhead (Chr CHR ''='')]"


text \<open>The line of the text that holds offset \<open>pos\<close>, and the offset where it starts.\<close>

definition line_start_of :: "string \<Rightarrow> nat \<Rightarrow> nat" where
  "line_start_of code pos = nat (py_rfind code newline pos + 1)"

definition line_of :: "string \<Rightarrow> nat \<Rightarrow> string" where
  "line_of code pos =
     (let line_start = line_start_of code pos;
          line_end = py_find code newline pos
      in if line_end \<noteq> - 1 then py_slice code line_start (nat line_end)
         else py_slice_from code line_start)"



subsection \<open>Touch target sizes\<close>




subsection \<open>The State enum of a ViewModel\<close>





subsection \<open>Accessibility labels\<close>

definition button_pattern :: pattern where
  "button_pattern = [Lit ''Button('']"

definition accessibility_message :: string where
  "accessibility_message = ''Image-only button should have .accessibilityLabel() for VoiceOver support.''"

text \<open>
  The loop \<^verbatim>\<open>for i in range(start, len(self.code))\<close> that looks for the closing brace of
  the button, at index \<open>i\<close> with the values of its three variables. It returns the value
  of \<^verbatim>\<open>button_end\<close> when the loop is left, by \<^verbatim>\<open>break\<close> or at the end of the range.
\<close>

function find_button_end :: "string \<Rightarrow> nat \<Rightarrow> int \<Rightarrow> bool \<Rightarrow> nat \<Rightarrow> py_error + nat" where
  "find_button_end code i brace_count in_button button_end =
     (if i < length code
      then (case py_getitem code i of
              Inl e \<Rightarrow> Inl e
            | Inr ch \<Rightarrow>
                if ch = CHR ''{''
                then find_button_end code (Suc i) (brace_count + 1) True button_end
                else if ch = CHR ''}''
                then (if in_button \<and> brace_count - 1 = 0 then Inr i
                      else find_button_end code (Suc i) (brace_count - 1) in_button button_end)
                else find_button_end code (Suc i) brace_count in_button button_end)
      else Inr button_end)"
  by pat_completeness auto
termination
  by (relation "measure (\<lambda>(code, i, brace_count, in_button, button_end). length code - i)") auto

declare find_button_end.simps [simp del]

text \<open>\<^verbatim>\<open>self.code[start:min(button_end + 200, len(self.code))]\<close>\<close>

definition snippet_of :: "string \<Rightarrow> nat \<Rightarrow> nat \<Rightarrow> string" where
  "snippet_of code start button_end = py_slice code start (min (button_end + 200) (length code))"

definition check_accessibility_labels :: "analyzer \<Rightarrow> py_error + analyzer" where
  "check_accessibility_labels self =
     for_each (finditer button_pattern (self_code self))
       (\<lambda>m self.
          let start = m_start m
          in case find_button_end (self_code self) start 0 False start of
               Inl e \<Rightarrow> Inl e
             | Inr button_end \<Rightarrow>
                 let snippet = snippet_of (self_code self) start button_end
                 in if py_contains ''Image('' snippet \<and> \<not> py_contains ''.accessibilityLabel'' snippet
                    then Inr (add_violation self ''warning'' ''missing_accessibility_label''
                                accessibility_message
                                (Some (line_num (self_code self) (m_start m))))
                    else Inr self)
       self"

subsection \<open>Running all checks\<close>






section \<open>What each check appends, as a function of the text\<close>

text \<open>
  The definitions of this section are not taken from the source: they name the list of
  violations that each method appends to \<^verbatim>\<open>self.violations\<close>, and the lemmas of the
  next sections prove that the methods above compute exactly these lists.
\<close>

definition match_at :: "pattern \<Rightarrow> string \<Rightarrow> nat \<Rightarrow> (nat \<times> string option) option" where
  "match_at p code i = rmatch p (rev (take i code)) (drop i code) 0 0 None"

definition no_group :: "atom \<Rightarrow> bool" where
  "no_group a = (a \<noteq> GroupOpen \<and> a \<noteq> GroupClose)"

definition frame_violation :: "string \<Rightarrow> string \<Rightarrow> rmatch_obj \<Rightarrow> violation" where
  "frame_violation code description m =
     \<lparr>severity = ''warning'', rule = ''hardcoded_frame_size'',
      message = description @ '': '' @ str_of_group (m_group1 m)
                  @ ''pt. Consider using minWidth/minHeight or semantic tokens.'',
      line = Some (line_num code (m_start m))\<rparr>"

definition frame_violations :: "string \<Rightarrow> violation list" where
  "frame_violations code =
     map (frame_violation code ''Hardcoded frame width'') (finditer frame_width_pattern code)
     @ map (frame_violation code ''Hardcoded frame height'') (finditer frame_height_pattern code)"











text \<open>The value of \<^verbatim>\<open>button_end\<close> for the button at offset \<open>start\<close> (\<open>start\<close> itself
  should the loop raise).\<close>

definition button_end_of :: "string \<Rightarrow> nat \<Rightarrow> nat" where
  "button_end_of code start =
     (case find_button_end code start 0 False start of Inl e \<Rightarrow> start | Inr e \<Rightarrow> e)"





section \<open>Auxiliary notions for the properties\<close>




text \<open>
  The depth of the braces between offset \<open>start\<close> and offset \<open>j\<close> (the opening braces
  minus the closing ones), and the offsets where the depth returns to zero after it
  was positive: \<open>j\<close> holds a closing brace, an opening brace came before it, and the
  depth after \<open>j\<close> is zero.
\<close>

definition brace_depth :: "string \<Rightarrow> nat \<Rightarrow> nat \<Rightarrow> int" where
  "brace_depth code start j =
     int (count_list (py_slice code start j) CHR ''{'')
       - int (count_list (py_slice code start j) CHR ''}'')"

definition closes_at :: "string \<Rightarrow> nat \<Rightarrow> nat \<Rightarrow> bool" where
  "closes_at code start j =
     (j < length code \<and> code ! j = CHR ''}'' \<and> CHR ''{'' \<in> set (py_slice code start j)
      \<and> brace_depth code start (Suc j) = 0)"




text \<open>
  The words of a pattern: the texts that the pattern can match from their first to
  their last character, whatever precedes and follows them (the lookbehind and the
  lookahead, which read the surroundings, are left out, and so is the marking of
  group 1). This is the usual meaning of the regular expression, written out for the
  constructs above; it is not used to compute matches, only to say what they look like.
\<close>

fun matches :: "pattern \<Rightarrow> string \<Rightarrow> bool" where
  "matches [] w = (w = [])"
| "matches (Lit l # as) w = (\<exists>w'. w = l @ w' \<and> matches as w')"
| "matches (Alt ls # as) w = (\<exists>l \<in> set ls. \<exists>w'. w = l @ w' \<and> matches as w')"
| "matches (Star k # as) w = (\<exists>ws w'. w = ws @ w' \<and> list_all (in_cls k) ws \<and> matches as w')"
| "matches (Plus k # as) w =
     (\<exists>ws w'. w = ws @ w' \<and> ws \<noteq> [] \<and> list_all (in_cls k) ws \<and> matches as w')"
| "matches (LazyStar k # as) w =
     (\<exists>ws w'. w = ws @ w' \<and> list_all (in_cls k) ws \<and> matches as w')"
| "matches (GroupOpen # as) w = matches as w"
| "matches (GroupClose # as) w = matches as w"
| "matches (NotBehind l # as) w = matches as w"
| "matches (NotAhead k # as) w = matches as w"



text \<open>
  The occurrences of the forced-unwrap operator that the rule is about, said without
  the matcher: offset \<open>i\<close> holds \<^verbatim>\<open>!\<close>, the three characters before it are not \<^verbatim>\<open>try\<close>, and
  the character after it is not \<^verbatim>\<open>=\<close>. And the suppression: a marker \<^verbatim>\<open>//\<close> starts on the
  line of offset \<open>i\<close>, before \<open>i\<close>.
\<close>

definition is_force_unwrap :: "string \<Rightarrow> nat \<Rightarrow> bool" where
  "is_force_unwrap code i =
     (i < length code \<and> code ! i = CHR ''!'' \<and> py_slice code (i - 3) i \<noteq> ''try''
      \<and> \<not> (Suc i < length code \<and> code ! Suc i = CHR ''=''))"

definition comment_before :: "string \<Rightarrow> nat \<Rightarrow> bool" where
  "comment_before code i =
     (\<exists>k. k < i - line_start_of code i \<and> py_slice (line_of code i) k (k + 2) = ''//'')"

section \<open>The loops and the matcher: general lemmas\<close>

lemma for_each_appends:
  assumes "\<And>x s. x \<in> set xs \<Longrightarrow> self_code s = c \<Longrightarrow>
             body x s = Inr (s\<lparr>self_violations := self_violations s @ f x\<rparr>)"
    and "self_code self = c"
  shows "for_each xs body self =
           Inr (self\<lparr>self_violations := self_violations self @ concat (map f xs)\<rparr>)"
  using assms
proof (induction xs arbitrary: self)
  case Nil
  then show ?case by simp
next
  case (Cons x xs)
  have step: "body x self = Inr (self\<lparr>self_violations := self_violations self @ f x\<rparr>)"
    using Cons.prems by simp
  have "for_each xs body (self\<lparr>self_violations := self_violations self @ f x\<rparr>) =
          Inr ((self\<lparr>self_violations := self_violations self @ f x\<rparr>)
                 \<lparr>self_violations := self_violations (self\<lparr>self_violations := self_violations self @ f x\<rparr>)
                    @ concat (map f xs)\<rparr>)"
    by (rule Cons.IH) (use Cons.prems in simp_all)
  with step show ?case by simp
qed




lemma rmatch_Lit:
  "rmatch (Lit l # as) pre s n gs g = Some r \<Longrightarrow>
     \<exists>s'. s = l @ s' \<and> rmatch as (rev l @ pre) s' (n + length l) gs g = Some r"
proof (induction l arbitrary: pre s n)
  case Nil
  then show ?case by simp
next
  case (Cons c l)
  then obtain x xs where s: "s = x # xs" by (cases s) auto
  with Cons.prems have xc: "x = c"
    and rest: "rmatch (Lit l # as) (x # pre) xs (Suc n) gs g = Some r"
    by (auto split: if_splits)
  from Cons.IH[OF rest] xc s show ?case by auto
qed

lemma rmatch_Star:
  "rmatch (Star k # as) pre s n gs g = Some r \<Longrightarrow>
     \<exists>ws s'. s = ws @ s' \<and> list_all (in_cls k) ws
        \<and> rmatch as (rev ws @ pre) s' (n + length ws) gs g = Some r"
proof (induction s arbitrary: pre n)
  case Nil
  then have "rmatch as (rev [] @ pre) [] (n + length ([]::string)) gs g = Some r" by simp
  then show ?case by (intro exI[of _ "[]"]) simp
next
  case (Cons x xs)
  show ?case
  proof (cases "in_cls k x \<and> rmatch (Star k # as) (x # pre) xs (Suc n) gs g = Some r")
    case True
    from Cons.IH[OF conjunct2[OF True]] obtain ws s' where
      "xs = ws @ s'" "list_all (in_cls k) ws"
      "rmatch as (rev ws @ x # pre) s' (Suc n + length ws) gs g = Some r" by blast
    with True show ?thesis
      by (intro exI[of _ "x # ws"] exI[of _ s']) simp
  next
    case False
    with Cons.prems have "rmatch as pre (x # xs) n gs g = Some r"
      by (auto split: if_splits option.splits)
    then show ?thesis by (intro exI[of _ "[]"] exI[of _ "x # xs"]) simp
  qed
qed

lemma rmatch_Plus:
  "rmatch (Plus k # as) pre s n gs g = Some r \<Longrightarrow>
     \<exists>ws s'. s = ws @ s' \<and> ws \<noteq> [] \<and> list_all (in_cls k) ws
        \<and> rmatch as (rev ws @ pre) s' (n + length ws) gs g = Some r"
proof -
  assume a: "rmatch (Plus k # as) pre s n gs g = Some r"
  then obtain x xs where s: "s = x # xs" by (cases s) auto
  with a have x: "in_cls k x" and rest: "rmatch (Star k # as) (x # pre) xs (Suc n) gs g = Some r"
    by (auto split: if_splits)
  from rmatch_Star[OF rest] obtain ws s' where
    "xs = ws @ s'" "list_all (in_cls k) ws"
    "rmatch as (rev ws @ x # pre) s' (Suc n + length ws) gs g = Some r" by blast
  with s x show ?thesis
    by (intro exI[of _ "x # ws"] exI[of _ s']) simp
qed

lemma rmatch_LazyStar:
  "rmatch (LazyStar k # as) pre s n gs g = Some r \<Longrightarrow>
     \<exists>ws s'. s = ws @ s' \<and> list_all (in_cls k) ws
        \<and> rmatch as (rev ws @ pre) s' (n + length ws) gs g = Some r"
proof (induction s arbitrary: pre n)
  case Nil
  then have "rmatch as (rev [] @ pre) [] (n + length ([]::string)) gs g = Some r" by simp
  then show ?case by (intro exI[of _ "[]"]) simp
next
  case (Cons x xs)
  show ?case
  proof (cases "rmatch as pre (x # xs) n gs g = Some r")
    case True
    then show ?thesis by (intro exI[of _ "[]"] exI[of _ "x # xs"]) simp
  next
    case False
    with Cons.prems have x: "in_cls k x"
      and rest: "rmatch (LazyStar k # as) (x # pre) xs (Suc n) gs g = Some r"
      by (auto split: if_splits option.splits)
    from Cons.IH[OF rest] obtain ws s' where
      "xs = ws @ s'" "list_all (in_cls k) ws"
      "rmatch as (rev ws @ x # pre) s' (Suc n + length ws) gs g = Some r" by blast
    with x show ?thesis
      by (intro exI[of _ "x # ws"] exI[of _ s']) simp
  qed
qed

lemma rmatch_Alt:
  "rmatch (Alt ls # as) pre s n gs g = Some r \<Longrightarrow>
     \<exists>l \<in> set ls. rmatch (Lit l # as) pre s n gs g = Some r"
  by (induction ls) (auto split: option.splits)







lemma find_button_end_total:
  "\<exists>e. find_button_end code i bc ib be = Inr e"
proof (induction code i bc ib be rule: find_button_end.induct)
  case (1 code i brace_count in_button button_end)
  show ?case
  proof (cases "i < length code")
    case True
    then have get: "py_getitem code i = Inr (code ! i)" by (simp add: py_getitem_def)
    show ?thesis
      using True get "1.IH"[OF True get]
      by (subst find_button_end.simps) auto
  next
    case False
    then show ?thesis by (subst find_button_end.simps) simp
  qed
qed


lemma frame_loop:
  assumes "self_code self = code"
  shows "for_each (finditer pat code)
           (\<lambda>m self.
               let sz = m_group1 m;
                   ln = line_num (self_code self) (m_start m)
               in Inr (add_violation self ''warning'' ''hardcoded_frame_size''
                    (description @ '': '' @ str_of_group sz
                       @ ''pt. Consider using minWidth/minHeight or semantic tokens.'')
                    (Some ln))) self
         = Inr (self\<lparr>self_violations := self_violations self
                   @ map (frame_violation code description) (finditer pat code)\<rparr>)"
proof -
  have "for_each (finditer pat code)
           (\<lambda>m self.
               let sz = m_group1 m;
                   ln = line_num (self_code self) (m_start m)
               in Inr (add_violation self ''warning'' ''hardcoded_frame_size''
                    (description @ '': '' @ str_of_group sz
                       @ ''pt. Consider using minWidth/minHeight or semantic tokens.'')
                    (Some ln))) self
         = Inr (self\<lparr>self_violations := self_violations self
                   @ concat (map (\<lambda>m. [frame_violation code description m]) (finditer pat code))\<rparr>)"
    by (rule for_each_appends[where c = code])
       (simp_all add: assms add_violation_def frame_violation_def Let_def)
  then show ?thesis by (simp add: concat_map_singleton)
qed

lemma check_hardcoded_frame_sizes_appends:
  "check_hardcoded_frame_sizes self =
     Inr (self\<lparr>self_violations := self_violations self @ frame_violations (self_code self)\<rparr>)"
proof -
  have "check_hardcoded_frame_sizes self =
      Inr (self\<lparr>self_violations := self_violations self
             @ concat (map (\<lambda>(pat, description).
                  map (frame_violation (self_code self) description)
                    (finditer pat (self_code self))) frame_patterns)\<rparr>)"
    unfolding check_hardcoded_frame_sizes_def
    apply (rule for_each_appends[where c = "self_code self"])
    subgoal for x s by (cases x) (simp only: prod.case frame_loop)
    by simp
  then show ?thesis
    by (simp add: frame_patterns_def frame_violations_def)
qed












lemma scan_starts:
  "m \<in> set (scan p skip pre pos s) \<Longrightarrow> pos + skip \<le> m_start m \<and> m_start m \<le> pos + length s"
proof (induction p skip pre pos s rule: scan.induct)
  case (1 p skip pre pos)
  then show ?case
    by (cases "skip = 0"; cases "rmatch p pre [] 0 0 None") auto
next
  case (2 p k pre pos x xs)
  then show ?case by auto
next
  case (3 p pre pos x xs)
  show ?case
  proof (cases "rmatch p pre (x # xs) 0 0 None")
    case None
    with 3 show ?thesis by auto
  next
    case (Some r)
    obtain n g where r: "r = (n, g)" by (cases r)
    from "3.prems" Some r
    consider "m = \<lparr>m_start = pos, m_end = pos + n, m_group1 = g\<rparr>"
      | "m \<in> set (scan p (n - 1) (x # pre) (Suc pos) xs)"
      by auto
    then show ?thesis
    proof cases
      case 1
      then show ?thesis by simp
    next
      case 2
      from "3.IH"(2)[OF Some r[symmetric] 2] show ?thesis by simp
    qed
  qed
qed



lemma scan_match_at:
  "rev pre @ s = code \<Longrightarrow> length pre = pos \<Longrightarrow> m \<in> set (scan p skip pre pos s) \<Longrightarrow>
     match_at p code (m_start m) = Some (m_end m - m_start m, m_group1 m)
     \<and> m_start m \<le> m_end m"
proof (induction p skip pre pos s rule: scan.induct)
  case (1 p skip pre pos)
  from "1.prems"(1,2) have here: "match_at p code pos = rmatch p pre [] 0 0 None"
    by (auto simp: match_at_def)
  from "1.prems"(3) here show ?case
    by (cases "skip = 0"; cases "rmatch p pre [] 0 0 None") auto
next
  case (2 p k pre pos x xs)
  then show ?case by simp
next
  case (3 p pre pos x xs)
  from "3.prems"(1,2) have here: "match_at p code pos = rmatch p pre (x # xs) 0 0 None"
    by (auto simp: match_at_def)
  show ?case
  proof (cases "rmatch p pre (x # xs) 0 0 None")
    case None
    with 3 show ?thesis by simp
  next
    case (Some r)
    obtain n g where r: "r = (n, g)" by (cases r)
    from "3.prems"(3) Some r
    consider "m = \<lparr>m_start = pos, m_end = pos + n, m_group1 = g\<rparr>"
      | "m \<in> set (scan p (n - 1) (x # pre) (Suc pos) xs)"
      by auto
    then show ?thesis
    proof cases
      case 1
      with here Some r show ?thesis by simp
    next
      case 2
      from "3.IH"(2)[OF Some r[symmetric] _ _ 2] "3.prems"(1,2) show ?thesis by simp
    qed
  qed
qed

lemma finditer_match_at:
  "m \<in> set (finditer p code) \<Longrightarrow>
     match_at p code (m_start m) = Some (m_end m - m_start m, m_group1 m)
     \<and> m_start m \<le> m_end m \<and> m_start m \<le> length code"
  using scan_match_at[of "[]" code code 0 m p 0] scan_starts[of m p 0 "[]" 0 code]
  by (simp add: finditer_def)


lemma rmatch_matches:
  "rmatch p pre s n gs g = Some (n', g') \<Longrightarrow>
     \<exists>w rest. s = w @ rest \<and> matches p w \<and> n' = n + length w"
proof (induction p arbitrary: pre s n gs g)
  case Nil
  then show ?case by simp
next
  case (Cons a as)
  show ?case
  proof (cases a)
    case (Lit l)
    from rmatch_Lit[OF Cons.prems[unfolded Lit]] obtain s' where
      s: "s = l @ s'" and r: "rmatch as (rev l @ pre) s' (n + length l) gs g = Some (n', g')"
      by blast
    from Cons.IH[OF r] obtain w rest where "s' = w @ rest" "matches as w"
      "n' = n + length l + length w" by blast
    with s Lit show ?thesis by (intro exI[of _ "l @ w"] exI[of _ rest]) auto
  next
    case (Alt ls)
    from rmatch_Alt[OF Cons.prems[unfolded Alt]] obtain l where l: "l \<in> set ls"
      and rl: "rmatch (Lit l # as) pre s n gs g = Some (n', g')" by blast
    from rmatch_Lit[OF rl] obtain s' where
      s: "s = l @ s'" and r: "rmatch as (rev l @ pre) s' (n + length l) gs g = Some (n', g')"
      by blast
    from Cons.IH[OF r] obtain w rest where "s' = w @ rest" "matches as w"
      "n' = n + length l + length w" by blast
    with s l Alt show ?thesis by (intro exI[of _ "l @ w"] exI[of _ rest]) auto
  next
    case (Star k)
    from rmatch_Star[OF Cons.prems[unfolded Star]] obtain ws s' where
      s: "s = ws @ s'" "list_all (in_cls k) ws"
      and r: "rmatch as (rev ws @ pre) s' (n + length ws) gs g = Some (n', g')" by blast
    from Cons.IH[OF r] obtain w rest where "s' = w @ rest" "matches as w"
      "n' = n + length ws + length w" by blast
    with s Star show ?thesis by (intro exI[of _ "ws @ w"] exI[of _ rest]) auto
  next
    case (Plus k)
    from rmatch_Plus[OF Cons.prems[unfolded Plus]] obtain ws s' where
      s: "s = ws @ s'" "ws \<noteq> []" "list_all (in_cls k) ws"
      and r: "rmatch as (rev ws @ pre) s' (n + length ws) gs g = Some (n', g')" by blast
    from Cons.IH[OF r] obtain w rest where "s' = w @ rest" "matches as w"
      "n' = n + length ws + length w" by blast
    with s Plus show ?thesis by (intro exI[of _ "ws @ w"] exI[of _ rest]) auto
  next
    case (LazyStar k)
    from rmatch_LazyStar[OF Cons.prems[unfolded LazyStar]] obtain ws s' where
      s: "s = ws @ s'" "list_all (in_cls k) ws"
      and r: "rmatch as (rev ws @ pre) s' (n + length ws) gs g = Some (n', g')" by blast
    from Cons.IH[OF r] obtain w rest where "s' = w @ rest" "matches as w"
      "n' = n + length ws + length w" by blast
    with s LazyStar show ?thesis by (intro exI[of _ "ws @ w"] exI[of _ rest]) auto
  next
    case GroupOpen
    with Cons.prems have "rmatch as pre s n n g = Some (n', g')" by simp
    from Cons.IH[OF this] GroupOpen show ?thesis by simp
  next
    case GroupClose
    with Cons.prems
    have "rmatch as pre s n gs (Some (rev (take (n - gs) pre))) = Some (n', g')" by simp
    from Cons.IH[OF this] GroupClose show ?thesis by simp
  next
    case (NotBehind l)
    with Cons.prems have "rmatch as pre s n gs g = Some (n', g')"
      by (simp split: if_splits)
    from Cons.IH[OF this] NotBehind show ?thesis by simp
  next
    case (NotAhead k)
    with Cons.prems have "rmatch as pre s n gs g = Some (n', g')"
      by (cases s) (simp_all split: if_splits)
    from Cons.IH[OF this] NotAhead show ?thesis by simp
  qed
qed



lemma rmatch_split:
  "rmatch (as1 @ as2) pre s n gs g = Some r \<Longrightarrow> list_all no_group as1 \<Longrightarrow>
     \<exists>w1 s2. s = w1 @ s2 \<and> matches as1 w1
        \<and> rmatch as2 (rev w1 @ pre) s2 (n + length w1) gs g = Some r"
proof (induction as1 arbitrary: pre s n)
  case Nil
  then show ?case by simp
next
  case (Cons a as)
  from Cons.prems(2) have ng: "list_all no_group as" and na: "no_group a" by simp_all
  note p = Cons.prems(1)[simplified]
  show ?case
  proof (cases a)
    case (Lit l)
    from rmatch_Lit[OF p[unfolded Lit]] obtain s' where
      s: "s = l @ s'"
      and r: "rmatch (as @ as2) (rev l @ pre) s' (n + length l) gs g = Some r"
      by blast
    from Cons.IH[OF r ng] obtain w s2 where "s' = w @ s2" "matches as w"
      "rmatch as2 (rev w @ rev l @ pre) s2 (n + length l + length w) gs g = Some r" by blast
    with s Lit show ?thesis
      by (intro exI[of _ "l @ w"] exI[of _ s2]) (auto simp: add.assoc)
  next
    case (Alt ls)
    from rmatch_Alt[OF p[unfolded Alt]] obtain l where l: "l \<in> set ls"
      and rl: "rmatch (Lit l # as @ as2) pre s n gs g = Some r" by blast
    from rmatch_Lit[OF rl] obtain s' where
      s: "s = l @ s'"
      and r: "rmatch (as @ as2) (rev l @ pre) s' (n + length l) gs g = Some r"
      by blast
    from Cons.IH[OF r ng] obtain w s2 where "s' = w @ s2" "matches as w"
      "rmatch as2 (rev w @ rev l @ pre) s2 (n + length l + length w) gs g = Some r" by blast
    with s l Alt show ?thesis
      by (intro exI[of _ "l @ w"] exI[of _ s2]) (auto simp: add.assoc)
  next
    case (Star k)
    from rmatch_Star[OF p[unfolded Star]] obtain ws s' where
      s: "s = ws @ s'" "list_all (in_cls k) ws"
      and r: "rmatch (as @ as2) (rev ws @ pre) s' (n + length ws) gs g = Some r" by blast
    from Cons.IH[OF r ng] obtain w s2 where "s' = w @ s2" "matches as w"
      "rmatch as2 (rev w @ rev ws @ pre) s2 (n + length ws + length w) gs g = Some r" by blast
    with s Star show ?thesis
      by (intro exI[of _ "ws @ w"] exI[of _ s2]) (auto simp: add.assoc)
  next
    case (Plus k)
    from rmatch_Plus[OF p[unfolded Plus]] obtain ws s' where
      s: "s = ws @ s'" "ws \<noteq> []" "list_all (in_cls k) ws"
      and r: "rmatch (as @ as2) (rev ws @ pre) s' (n + length ws) gs g = Some r" by blast
    from Cons.IH[OF r ng] obtain w s2 where "s' = w @ s2" "matches as w"
      "rmatch as2 (rev w @ rev ws @ pre) s2 (n + length ws + length w) gs g = Some r" by blast
    with s Plus show ?thesis
      by (intro exI[of _ "ws @ w"] exI[of _ s2]) (auto simp: add.assoc)
  next
    case (LazyStar k)
    from rmatch_LazyStar[OF p[unfolded LazyStar]] obtain ws s' where
      s: "s = ws @ s'" "list_all (in_cls k) ws"
      and r: "rmatch (as @ as2) (rev ws @ pre) s' (n + length ws) gs g = Some r" by blast
    from Cons.IH[OF r ng] obtain w s2 where "s' = w @ s2" "matches as w"
      "rmatch as2 (rev w @ rev ws @ pre) s2 (n + length ws + length w) gs g = Some r" by blast
    with s LazyStar show ?thesis
      by (intro exI[of _ "ws @ w"] exI[of _ s2]) (auto simp: add.assoc)
  next
    case GroupOpen
    with na show ?thesis by (simp add: no_group_def)
  next
    case GroupClose
    with na show ?thesis by (simp add: no_group_def)
  next
    case (NotBehind l)
    with p have "rmatch (as @ as2) pre s n gs g = Some r"
      by (simp split: if_splits)
    from Cons.IH[OF this ng] NotBehind show ?thesis by simp
  next
    case (NotAhead k)
    with p have "rmatch (as @ as2) pre s n gs g = Some r"
      by (cases s) (simp_all split: if_splits)
    from Cons.IH[OF this ng] NotAhead show ?thesis by simp
  qed
qed

lemma rmatch_digits_group_text:
  assumes "rmatch [GroupOpen, Plus Digit, GroupClose, Lit l] pre s n gs g = Some (n', g')"
  shows "\<exists>ds rest. s = ds @ l @ rest \<and> ds \<noteq> [] \<and> list_all is_digit ds \<and> g' = Some ds
           \<and> n' = n + length ds + length l"
proof -
  from assms have "rmatch [Plus Digit, GroupClose, Lit l] pre s n n g = Some (n', g')" by simp
  from rmatch_Plus[OF this] obtain ds s' where ds: "s = ds @ s'" "ds \<noteq> []"
      "list_all (in_cls Digit) ds"
    and rest: "rmatch [GroupClose, Lit l] (rev ds @ pre) s' (n + length ds) n g = Some (n', g')"
    by blast
  from rest have "rmatch [Lit l] (rev ds @ pre) s' (n + length ds) n (Some ds) = Some (n', g')"
    by simp
  from rmatch_Lit[OF this] obtain rest where "s' = l @ rest" "g' = Some ds"
    "n' = n + length ds + length l" by auto
  with ds show ?thesis by (auto simp: list_all_iff)
qed

lemma finditer_group_text:
  assumes "m \<in> set (finditer (as1 @ [GroupOpen, Plus Digit, GroupClose, Lit l]) code)"
    and "list_all no_group as1"
  shows "\<exists>w1 ds. py_slice code (m_start m) (m_end m) = w1 @ ds @ l \<and> matches as1 w1
           \<and> ds \<noteq> [] \<and> list_all is_digit ds \<and> m_group1 m = Some ds"
proof -
  let ?s = "drop (m_start m) code"
  from finditer_match_at[OF assms(1)] have
    r: "rmatch (as1 @ [GroupOpen, Plus Digit, GroupClose, Lit l]) (rev (take (m_start m) code))
          ?s 0 0 None = Some (m_end m - m_start m, m_group1 m)"
    and le: "m_start m \<le> m_end m"
    by (simp_all add: match_at_def)
  from rmatch_split[OF r assms(2)] obtain w1 s2 where
    w1: "?s = w1 @ s2" "matches as1 w1"
    and r2: "rmatch [GroupOpen, Plus Digit, GroupClose, Lit l]
          (rev w1 @ rev (take (m_start m) code)) s2 (0 + length w1) 0 None
          = Some (m_end m - m_start m, m_group1 m)"
    by blast
  from rmatch_digits_group_text[OF r2] obtain ds rest where
    ds: "s2 = ds @ l @ rest" "ds \<noteq> []" "list_all is_digit ds" "m_group1 m = Some ds"
      "m_end m - m_start m = 0 + length w1 + length ds + length l"
    by blast
  have "py_slice code (m_start m) (m_end m) = take (m_end m - m_start m) ?s"
    by (simp add: py_slice_def drop_take)
  also have "\<dots> = w1 @ ds @ l" using w1(1) ds(1,5) by simp
  finally show ?thesis using w1(2) ds(2,3,4) by blast
qed












lemma scan_starts_eq:
  "(\<And>j n g k. match_at p code j = Some (n, g) \<Longrightarrow> 0 < k \<Longrightarrow> k < n \<Longrightarrow>
      match_at p code (j + k) = None) \<Longrightarrow>
   match_at p code (length code) = None \<Longrightarrow>
   rev pre @ s = code \<Longrightarrow> length pre = pos \<Longrightarrow>
   (\<forall>k < skip. match_at p code (pos + k) = None) \<Longrightarrow>
     map m_start (scan p skip pre pos s)
       = filter (\<lambda>i. match_at p code i \<noteq> None) [pos..<length code]"
proof (induction p skip pre pos s rule: scan.induct)
  case (1 p skip pre pos)
  from "1.prems"(3,4) have len: "pos = length code" by auto
  from "1.prems"(3,4) have "match_at p code pos = rmatch p pre [] 0 0 None"
    by (auto simp: match_at_def)
  with "1.prems"(2) len have "rmatch p pre [] 0 0 None = None" by simp
  with len show ?case by simp
next
  case (2 p k pre pos x xs)
  from "2.prems"(3,4) have lt: "pos < length code" by auto
  from "2.prems"(5) have here: "match_at p code pos = None" by force
  have later: "\<forall>k' < k. match_at p code (Suc pos + k') = None"
    using "2.prems"(5) by (metis Suc_less_eq add_Suc_shift)
  have "map m_start (scan p k (x # pre) (Suc pos) xs)
      = filter (\<lambda>i. match_at p code i \<noteq> None) [Suc pos..<length code]"
    by (rule "2.IH"[OF "2.prems"(1,2) _ _ later]) (use "2.prems"(3,4) in auto)
  with here lt show ?case by (simp add: upt_conv_Cons)
next
  case (3 p pre pos x xs)
  from "3.prems"(3,4) have lt: "pos < length code" by auto
  from "3.prems"(3,4) have here: "match_at p code pos = rmatch p pre (x # xs) 0 0 None"
    by (auto simp: match_at_def)
  show ?case
  proof (cases "rmatch p pre (x # xs) 0 0 None")
    case None
    have "map m_start (scan p 0 (x # pre) (Suc pos) xs)
        = filter (\<lambda>i. match_at p code i \<noteq> None) [Suc pos..<length code]"
      by (rule "3.IH"(1)[OF None "3.prems"(1,2)]) (use "3.prems"(3,4) in auto)
    with None here lt show ?thesis by (simp add: upt_conv_Cons)
  next
    case (Some r)
    obtain n g where r: "r = (n, g)" by (cases r)
    have later: "\<forall>k < n - 1. match_at p code (Suc pos + k) = None"
    proof (intro allI impI)
      fix k assume "k < n - 1"
      then have k: "0 < Suc k" "Suc k < n" by simp_all
      have "match_at p code pos = Some (n, g)" using here Some r by simp
      from "3.prems"(1)[OF this k] show "match_at p code (Suc pos + k) = None" by simp
    qed
    have "map m_start (scan p (n - 1) (x # pre) (Suc pos) xs)
        = filter (\<lambda>i. match_at p code i \<noteq> None) [Suc pos..<length code]"
      by (rule "3.IH"(2)[OF Some r[symmetric] "3.prems"(1,2) _ _ later])
         (use "3.prems"(3,4) in auto)
    with Some r here lt show ?thesis by (simp add: upt_conv_Cons)
  qed
qed

lemma finditer_starts_eq:
  assumes "\<And>j n g k. match_at p code j = Some (n, g) \<Longrightarrow> 0 < k \<Longrightarrow> k < n \<Longrightarrow>
      match_at p code (j + k) = None"
    and "match_at p code (length code) = None"
  shows "map m_start (finditer p code)
       = filter (\<lambda>i. match_at p code i \<noteq> None) [0..<length code]"
  unfolding finditer_def
  by (rule scan_starts_eq[OF assms(1,2)]) simp_all

lemma unwrap_tail:
  "(rmatch [Star Space, NotAhead (Chr CHR ''='')] pre xs n gs g = None)
     = (\<exists>ys. xs = CHR ''='' # ys)"
proof (induction xs arbitrary: pre n)
  case Nil
  then show ?case by simp
next
  case (Cons x xs)
  have eq: "\<not> is_space CHR ''=''" by (simp add: is_space_def)
  show ?case
  proof (cases "is_space x")
    case True
    with eq have "x \<noteq> CHR ''=''" by auto
    with True show ?thesis by (simp split: option.splits)
  next
    case False
    then show ?thesis by simp
  qed
qed

lemma unwrap_step:
  "rmatch force_unwrap_pattern pre (x # xs) 0 0 None =
     (if take (length ''try'') pre = rev ''try'' then None
      else if x = CHR ''!''
      then rmatch [Star Space, NotAhead (Chr CHR ''='')] (x # pre) xs 1 0 None
      else None)"
  by (simp add: force_unwrap_pattern_def del: rmatch.simps(8,17))

lemma take3_rev_take:
  "i \<le> length code \<Longrightarrow>
     (take (length ''try'') (rev (take i code)) = rev ''try'')
       = (py_slice code (i - 3) i = ''try'')"
proof -
  assume "i \<le> length code"
  then have "take (length ''try'') (rev (take i code)) = rev (py_slice code (i - 3) i)"
    by (simp add: take_rev py_slice_def min_absorb2 numeral_3_eq_3)
  then show ?thesis by (metis rev_rev_ident)
qed

lemma match_at_unwrap:
  "(match_at force_unwrap_pattern code i \<noteq> None) = is_force_unwrap code i"
proof (cases "i < length code")
  case False
  then show ?thesis
    by (simp add: match_at_def force_unwrap_pattern_def is_force_unwrap_def)
next
  case True
  then have d: "drop i code = code ! i # drop (Suc i) code"
    by (simp add: Cons_nth_drop_Suc)
  have nxt: "(\<exists>ys. drop (Suc i) code = CHR ''='' # ys)
      = (Suc i < length code \<and> code ! Suc i = CHR ''='')"
  proof (cases "Suc i < length code")
    case True
    then have "drop (Suc i) code = code ! Suc i # drop (Suc (Suc i)) code"
      by (simp add: Cons_nth_drop_Suc)
    with True show ?thesis by simp
  next
    case False
    then show ?thesis by simp
  qed
  from True have le: "i \<le> length code" by simp
  note t3 = take3_rev_take[OF le]
  note tl = unwrap_tail[of "code ! i # rev (take i code)" "drop (Suc i) code" 1 0 None]
  show ?thesis
  proof (cases "py_slice code (i - 3) i = ''try''")
    case True
    with t3 show ?thesis
      unfolding match_at_def d unwrap_step by (simp only: is_force_unwrap_def if_True) simp
  next
    case notry: False
    show ?thesis
    proof (cases "code ! i = CHR ''!''")
      case False
      with t3 notry show ?thesis
        unfolding match_at_def d unwrap_step by (simp only: is_force_unwrap_def if_False) simp
    next
      case bang: True
      have "match_at force_unwrap_pattern code i
          = rmatch [Star Space, NotAhead (Chr CHR ''='')] (code ! i # rev (take i code))
              (drop (Suc i) code) 1 0 None"
        unfolding match_at_def d unwrap_step using t3 notry bang by simp
      then have "(match_at force_unwrap_pattern code i \<noteq> None)
          = (\<not> (Suc i < length code \<and> code ! Suc i = CHR ''=''))"
        using tl nxt by simp
      with True notry bang show ?thesis by (simp add: is_force_unwrap_def)
    qed
  qed
qed

lemma unwrap_words:
  assumes "matches force_unwrap_pattern w"
  shows "\<exists>ws. w = ''!'' @ ws \<and> list_all is_space ws"
proof -
  from assms obtain ws where 1: "w = ''!'' @ ws @ []" and 2: "list_all (in_cls Space) ws"
    unfolding force_unwrap_pattern_def matches.simps
    by (elim exE conjE, hypsubst) (rule that; (rule refl | assumption))
  have "w = ''!'' @ ws" using 1 by (simp only: append_Nil2)
  moreover have "list_all is_space ws" using 2 by (simp add: list_all_iff)
  ultimately show ?thesis by (intro exI[of _ ws] conjI)
qed

lemma match_at_matches:
  assumes "match_at p code j = Some (n, g)"
  shows "\<exists>w rest. drop j code = w @ rest \<and> matches p w \<and> n = length w"
  using rmatch_matches[OF assms[unfolded match_at_def]] by simp

lemma unwrap_nonoverlap:
  assumes "match_at force_unwrap_pattern code j = Some (n, g)" "0 < k" "k < n"
  shows "match_at force_unwrap_pattern code (j + k) = None"
proof -
  from match_at_matches[OF assms(1)] obtain w rest where
    w: "drop j code = w @ rest" "matches force_unwrap_pattern w" "n = length w" by blast
  from unwrap_words[OF w(2)] obtain ws where ws: "w = ''!'' @ ws" "list_all is_space ws"
    by blast
  have lt: "j + k < length code"
  proof -
    have "length (drop j code) = length w + length rest" using w(1) by simp
    with assms(3) w(3) show ?thesis by simp
  qed
  have "code ! (j + k) = (drop j code) ! k" using lt by simp
  also have "\<dots> = w ! k" using w(1,3) assms(3) by (simp add: nth_append)
  also have "\<dots> = ws ! (k - 1)" using ws(1) assms(2) by (cases k) simp_all
  finally have c: "code ! (j + k) = ws ! (k - 1)" .
  have "k - 1 < length ws" using assms(2,3) w(3) ws(1) by simp
  with ws(2) have "is_space (ws ! (k - 1))" by (simp add: list_all_length)
  with c have "code ! (j + k) \<noteq> CHR ''!''" by (auto simp: is_space_def)
  then have "\<not> is_force_unwrap code (j + k)" by (simp add: is_force_unwrap_def)
  with match_at_unwrap[of code "j + k"] show ?thesis by blast
qed

lemma finditer_unwrap_starts:
  "map m_start (finditer force_unwrap_pattern code)
     = filter (is_force_unwrap code) [0..<length code]"
proof -
  have e: "match_at force_unwrap_pattern code (length code) = None"
  proof -
    have "\<not> is_force_unwrap code (length code)" by (simp add: is_force_unwrap_def)
    with match_at_unwrap[of code "length code"] show ?thesis by blast
  qed
  have "map m_start (finditer force_unwrap_pattern code)
      = filter (\<lambda>i. match_at force_unwrap_pattern code i \<noteq> None) [0..<length code]"
    by (rule finditer_starts_eq[OF unwrap_nonoverlap e])
  then show ?thesis by (simp only: match_at_unwrap)
qed

section \<open>The result of an analysis\<close>





section \<open>No exception, for any text\<close>



lemma re_search_None: "re_search p code = None \<longleftrightarrow> finditer p code = []"
  by (simp add: re_search_def split: list.splits)



section \<open>Two calls on the same text\<close>



section \<open>The span of a button\<close>

lemma py_slice_Suc:
  "start \<le> i \<Longrightarrow> i < length code \<Longrightarrow>
     py_slice code start (Suc i) = py_slice code start i @ [code ! i]"
  by (simp add: py_slice_def take_Suc_conv_app_nth)

lemma find_button_end_unclosed:
  "start \<le> i \<Longrightarrow> bc = brace_depth code start i \<Longrightarrow>
   ib = (CHR ''{'' \<in> set (py_slice code start i)) \<Longrightarrow>
   (\<forall>j. i \<le> j \<and> j < length code \<longrightarrow> \<not> closes_at code start j) \<Longrightarrow>
   find_button_end code i bc ib be = Inr be"
proof (induction code i bc ib be rule: find_button_end.induct)
  case (1 code i brace_count in_button button_end)
  show ?case
  proof (cases "i < length code")
    case False
    then show ?thesis by (subst find_button_end.simps) simp
  next
    case True
    then have get: "py_getitem code i = Inr (code ! i)" by (simp add: py_getitem_def)
    note sl = py_slice_Suc[OF "1.prems"(1) True]
    have later: "\<forall>j. Suc i \<le> j \<and> j < length code \<longrightarrow> \<not> closes_at code start j"
      using "1.prems"(4) by auto
    have here: "\<not> closes_at code start i" using "1.prems"(4) True by auto
    have le: "start \<le> Suc i" using "1.prems"(1) by simp
    consider (opn) "code ! i = CHR ''{''"
      | (cls) "code ! i = CHR ''}''"
      | (oth) "code ! i \<noteq> CHR ''{''" "code ! i \<noteq> CHR ''}''"
      by blast
    then show ?thesis
    proof cases
      case opn
      have "find_button_end code (Suc i) (brace_count + 1) True button_end = Inr button_end"
        by (rule "1.IH"(1)[OF True get opn le _ _ later])
           (simp_all add: brace_depth_def sl opn "1.prems")
      with True get opn show ?thesis by (subst find_button_end.simps) simp
    next
      case cls
      have nb: "\<not> (in_button \<and> brace_count - 1 = 0)"
        using here True cls "1.prems"(2,3) by (auto simp: closes_at_def brace_depth_def sl)
      have "find_button_end code (Suc i) (brace_count - 1) in_button button_end = Inr button_end"
        by (rule "1.IH"(2)[OF True get _ cls nb le _ _ later])
           (simp_all add: brace_depth_def sl cls "1.prems")
      with True get cls nb show ?thesis by (subst find_button_end.simps) auto
    next
      case oth
      have "find_button_end code (Suc i) brace_count in_button button_end = Inr button_end"
        by (rule "1.IH"(3)[OF True get oth le _ _ later])
           (use oth in \<open>auto simp: brace_depth_def sl "1.prems"\<close>)
      with True get oth show ?thesis by (subst find_button_end.simps) simp
    qed
  qed
qed

lemma find_button_end_closed:
  "start \<le> i \<Longrightarrow> bc = brace_depth code start i \<Longrightarrow>
   ib = (CHR ''{'' \<in> set (py_slice code start i)) \<Longrightarrow>
   i \<le> e \<Longrightarrow> closes_at code start e \<Longrightarrow>
   (\<forall>j. i \<le> j \<and> j < e \<longrightarrow> \<not> closes_at code start j) \<Longrightarrow>
   find_button_end code i bc ib be = Inr e"
proof (induction code i bc ib be rule: find_button_end.induct)
  case (1 code i brace_count in_button button_end)
  from "1.prems"(4,5) have True: "i < length code" by (simp add: closes_at_def)
  then have get: "py_getitem code i = Inr (code ! i)" by (simp add: py_getitem_def)
  note sl = py_slice_Suc[OF "1.prems"(1) True]
  have le: "start \<le> Suc i" using "1.prems"(1) by simp
  show ?case
  proof (cases "e = i")
    case True
    with "1.prems"(5) have "code ! i = CHR ''}''" "in_button \<and> brace_count - 1 = 0"
      using "1.prems"(2,3) \<open>i < length code\<close> by (auto simp: closes_at_def brace_depth_def sl)
    with get \<open>i < length code\<close> True show ?thesis by (subst find_button_end.simps) simp
  next
    case False
    with "1.prems"(4) have e: "Suc i \<le> e" by simp
    have later: "\<forall>j. Suc i \<le> j \<and> j < e \<longrightarrow> \<not> closes_at code start j"
      using "1.prems"(6) by auto
    have here: "\<not> closes_at code start i" using "1.prems"(6) False "1.prems"(4) by auto
    consider (opn) "code ! i = CHR ''{''"
      | (cls) "code ! i = CHR ''}''"
      | (oth) "code ! i \<noteq> CHR ''{''" "code ! i \<noteq> CHR ''}''"
      by blast
    then show ?thesis
    proof cases
      case opn
      have "find_button_end code (Suc i) (brace_count + 1) True button_end = Inr e"
        by (rule "1.IH"(1)[OF True get opn le _ _ e "1.prems"(5) later])
           (simp_all add: brace_depth_def sl opn "1.prems")
      with True get opn show ?thesis by (subst find_button_end.simps) simp
    next
      case cls
      have nb: "\<not> (in_button \<and> brace_count - 1 = 0)"
        using here True cls "1.prems"(2,3) by (auto simp: closes_at_def brace_depth_def sl)
      have "find_button_end code (Suc i) (brace_count - 1) in_button button_end = Inr e"
        by (rule "1.IH"(2)[OF True get _ cls nb le _ _ e "1.prems"(5) later])
           (simp_all add: brace_depth_def sl cls "1.prems")
      with True get cls nb show ?thesis by (subst find_button_end.simps) auto
    next
      case oth
      have "find_button_end code (Suc i) brace_count in_button button_end = Inr e"
        by (rule "1.IH"(3)[OF True get oth le _ _ e "1.prems"(5) later])
           (use oth in \<open>auto simp: brace_depth_def sl "1.prems"\<close>)
      with True get oth show ?thesis by (subst find_button_end.simps) simp
    qed
  qed
qed

text \<open>
  Claim C5, as stated, fails. In the text \<^verbatim>\<open>Button( {\<close> the depth of braces becomes
  positive and the text ends before it returns to zero; the loop then leaves
  \<^verbatim>\<open>button_end\<close> at the start offset 0, so the span is empty and does not extend to
  the end of the text (offset 9). In a text of 214 characters with an opening brace
  that is never closed, the snippet that is examined stops 200 characters after the
  start, before the \<^verbatim>\<open>Image(\<close> at offset 208, which is therefore not reported.
\<close>

theorem unclosed_span_counterexample:
  "find_button_end ''Button( {'' 0 0 False 0 = Inr 0
   \<and> length ''Button( {'' = 9
   \<and> brace_depth ''Button( {'' 0 9 = 1
   \<and> find_button_end (''Button({'' @ replicate 200 CHR '' '' @ ''Image('') 0 0 False 0 = Inr 0
   \<and> snippet_of (''Button({'' @ replicate 200 CHR '' '' @ ''Image('') 0 0
         = ''Button({'' @ replicate 192 CHR '' ''
   \<and> check_accessibility_labels
         \<lparr>self_code = ''Button({'' @ replicate 200 CHR '' '' @ ''Image('', self_violations = []\<rparr>
       = Inr \<lparr>self_code = ''Button({'' @ replicate 200 CHR '' '' @ ''Image('',
              self_violations = []\<rparr>"
proof (intro conjI)
  show "find_button_end ''Button( {'' 0 0 False 0 = Inr 0" by code_simp
  show "length ''Button( {'' = 9" by code_simp
  show "brace_depth ''Button( {'' 0 9 = 1" by code_simp
  show "find_button_end (''Button({'' @ replicate 200 CHR '' '' @ ''Image('') 0 0 False 0 = Inr 0"
    by code_simp
  show "snippet_of (''Button({'' @ replicate 200 CHR '' '' @ ''Image('') 0 0
         = ''Button({'' @ replicate 192 CHR '' ''"
    by code_simp
  show "check_accessibility_labels
         \<lparr>self_code = ''Button({'' @ replicate 200 CHR '' '' @ ''Image('', self_violations = []\<rparr>
       = Inr \<lparr>self_code = ''Button({'' @ replicate 200 CHR '' '' @ ''Image('',
              self_violations = []\<rparr>"
    by code_simp
qed

text \<open>
  Claim C5, amended. The loop never fails. If the depth of braces returns to zero after
  it was positive, \<^verbatim>\<open>button_end\<close> is the first offset where it does. If the text ends
  before that, \<^verbatim>\<open>button_end\<close> stays at the start offset: the span is empty, and the
  snippet that is examined is made of the 200 characters that follow the start offset,
  or of all that follow when they are fewer.
\<close>

theorem unclosed_span_stays_at_start:
  "(\<exists>e. find_button_end code start 0 False start = Inr e)
   \<and> (start \<le> e \<and> closes_at code start e
        \<and> (\<forall>j \<in> {start..<e}. \<not> closes_at code start j)
        \<longrightarrow> find_button_end code start 0 False start = Inr e)
   \<and> ((\<forall>j \<in> {start..<length code}. \<not> closes_at code start j)
        \<longrightarrow> find_button_end code start 0 False start = Inr start
            \<and> snippet_of code start (button_end_of code start) = take 200 (drop start code))"
proof -
  have init: "0 = brace_depth code start start"
    "False = (CHR ''{'' \<in> set (py_slice code start start))"
    by (simp_all add: brace_depth_def py_slice_def)
  have closed: "find_button_end code start 0 False start = Inr e"
    if "start \<le> e" "closes_at code start e" "\<forall>j \<in> {start..<e}. \<not> closes_at code start j"
    using that by (intro find_button_end_closed[OF order_refl init]) auto
  have unclosed: "find_button_end code start 0 False start = Inr start"
    if "\<forall>j \<in> {start..<length code}. \<not> closes_at code start j"
    using that by (intro find_button_end_unclosed[OF order_refl init]) auto
  have snip: "snippet_of code start (button_end_of code start) = take 200 (drop start code)"
    if "\<forall>j \<in> {start..<length code}. \<not> closes_at code start j"
    using unclosed[OF that]
    by (simp add: snippet_of_def button_end_of_def py_slice_def drop_take min_def)
  show ?thesis
    using find_button_end_total[of code start 0 False start] closed unclosed snip
    by (intro conjI impI) auto
qed

text \<open>The two cases on concrete texts: \<^verbatim>\<open>Button(){}\<close> is closed at offset 9 and at no
  offset before, and \<^verbatim>\<open>Button( {\<close> is never closed.\<close>

theorem unclosed_span_stays_at_start_witness:
  "(0::nat) \<le> 9 \<and> closes_at ''Button(){}'' 0 9
   \<and> find_button_end ''Button(){}'' 0 0 False 0 = Inr 9
   \<and> find_button_end ''Button( {'' 0 0 False 0 = Inr 0
   \<and> snippet_of ''Button( {'' 0 (button_end_of ''Button( {'' 0) = take 200 (drop 0 ''Button( {'')"
proof -
  have "list_all (\<lambda>j. \<not> closes_at ''Button(){}'' 0 j) [0..<9]"
    by code_simp
  then have q1: "\<forall>j \<in> {0..<9}. \<not> closes_at ''Button(){}'' 0 j"
    unfolding list_all_iff set_upt .
  have "(0::nat) \<le> 9 \<and> closes_at ''Button(){}'' 0 9"
    by code_simp
  with q1 have h1: "(0::nat) \<le> 9 \<and> closes_at ''Button(){}'' 0 9
      \<and> (\<forall>j \<in> {0..<9}. \<not> closes_at ''Button(){}'' 0 j)"
    by (intro conjI) (erule conjunct1, erule conjunct2)
  have "list_all (\<lambda>j. \<not> closes_at ''Button( {'' 0 j) [0..<length ''Button( {'']"
    by code_simp
  then have h2: "\<forall>j \<in> {0..<length ''Button( {''}. \<not> closes_at ''Button( {'' 0 j"
    unfolding list_all_iff set_upt .
  have c1: "find_button_end ''Button(){}'' 0 0 False 0 = Inr 9"
    by (rule mp[OF conjunct1[OF conjunct2[OF unclosed_span_stays_at_start]]]) (rule h1)
  have c2: "find_button_end ''Button( {'' 0 0 False 0 = Inr 0
      \<and> snippet_of ''Button( {'' 0 (button_end_of ''Button( {'' 0) = take 200 (drop 0 ''Button( {'')"
    by (rule mp[OF conjunct2[OF conjunct2[OF unclosed_span_stays_at_start]]]) (rule h2)
  show ?thesis by (intro conjI conjunct1[OF c2] conjunct2[OF c2] c1 conjunct1[OF h1]
      conjunct1[OF conjunct2[OF h1]])
qed

section \<open>The order of the violations\<close>









section \<open>Touch targets\<close>




section \<open>Frame sizes with one argument\<close>

lemma frame_words:
  assumes "m \<in> set (finditer [Lit l, Star Space, GroupOpen, Plus Digit, GroupClose, Lit '')''] code)"
  shows "\<exists>ws ds. py_slice code (m_start m) (m_end m) = l @ ws @ ds @ '')''
           \<and> list_all is_space ws \<and> ds \<noteq> [] \<and> list_all is_digit ds \<and> m_group1 m = Some ds"
proof -
  have ng: "list_all no_group [Lit l, Star Space]" by (simp add: no_group_def)
  from assms have "m \<in> set (finditer
      ([Lit l, Star Space] @ [GroupOpen, Plus Digit, GroupClose, Lit '')'']) code)"
    by simp
  from finditer_group_text[OF this ng] obtain w1 ds where
    w1: "py_slice code (m_start m) (m_end m) = w1 @ ds @ '')''"
      "matches [Lit l, Star Space] w1"
    and ds: "ds \<noteq> []" "list_all is_digit ds" "m_group1 m = Some ds"
    by blast
  from w1(2) obtain ws where ws: "w1 = l @ ws" "list_all is_space ws"
    by (auto simp: list_all_iff)
  show ?thesis
    unfolding w1(1) ws(1)
    by (intro exI[of _ ws] exI[of _ ds] conjI ws(2) ds) simp
qed

lemma combined_directive_no_match:
  "list_all (\<lambda>k. rmatch frame_width_pattern pre'
        (drop k ''.frame(width: 100, height: 50)'' @ post) 0 0 None = None
      \<and> rmatch frame_height_pattern pre'
        (drop k ''.frame(width: 100, height: 50)'' @ post) 0 0 None = None) [0..<30]"
  by (simp add: frame_width_pattern_def frame_height_pattern_def is_space_def is_digit_def
      upt_rec[of _ "numeral _"] upt_rec[of _ "Suc _"])

lemma match_at_inside:
  "k \<le> length d \<Longrightarrow>
     match_at p (pre @ d @ post) (length pre + k)
       = rmatch p (rev (take k d) @ rev pre) (drop k d @ post) 0 0 None"
  by (simp add: match_at_def)

lemma combined_directive_inside:
  assumes "k < 30"
  shows "match_at frame_width_pattern (pre @ ''.frame(width: 100, height: 50)'' @ post)
           (length pre + k) = None
         \<and> match_at frame_height_pattern (pre @ ''.frame(width: 100, height: 50)'' @ post)
           (length pre + k) = None"
proof -
  from assms have k: "k \<in> set [0..<30]" by simp
  have le: "k \<le> length ''.frame(width: 100, height: 50)''" using assms by simp
  from combined_directive_no_match[unfolded list_all_iff, rule_format, OF k]
  show ?thesis unfolding match_at_inside[OF le] by blast
qed

text \<open>
  Claim C10. Every match of the two patterns of the rule \<^verbatim>\<open>hardcoded_frame_size\<close> is a
  directive with one argument: \<^verbatim>\<open>.frame(width:\<close> (or \<^verbatim>\<open>.frame(height:\<close>), white space,
  digits, and the closing parenthesis right after the digits. Wherever the combined
  directive \<^verbatim>\<open>.frame(width: 100, height: 50)\<close> stands in a text, no match of either pattern
  starts at any of its characters, so it yields no violation of the rule; the text
  made of this directive alone yields no violation at all.
\<close>

theorem frame_size_single_argument:
  "(\<forall>m \<in> set (finditer frame_width_pattern code).
      \<exists>ws ds. py_slice code (m_start m) (m_end m) = ''.frame(width:'' @ ws @ ds @ '')''
        \<and> list_all is_space ws \<and> ds \<noteq> [] \<and> list_all is_digit ds \<and> m_group1 m = Some ds)
   \<and> (\<forall>m \<in> set (finditer frame_height_pattern code).
      \<exists>ws ds. py_slice code (m_start m) (m_end m) = ''.frame(height:'' @ ws @ ds @ '')''
        \<and> list_all is_space ws \<and> ds \<noteq> [] \<and> list_all is_digit ds \<and> m_group1 m = Some ds)
   \<and> (\<forall>m \<in> set (finditer frame_width_pattern
                     (pre @ ''.frame(width: 100, height: 50)'' @ post))
             \<union> set (finditer frame_height_pattern
                     (pre @ ''.frame(width: 100, height: 50)'' @ post)).
         m_start m < length pre \<or> length pre + length ''.frame(width: 100, height: 50)'' \<le> m_start m)
   \<and> check_hardcoded_frame_sizes
        \<lparr>self_code = ''.frame(width: 100, height: 50)'', self_violations = vs\<rparr>
       = Inr \<lparr>self_code = ''.frame(width: 100, height: 50)'', self_violations = vs\<rparr>"
proof (intro conjI ballI)
  fix m assume "m \<in> set (finditer frame_width_pattern code)"
  then show "\<exists>ws ds. py_slice code (m_start m) (m_end m) = ''.frame(width:'' @ ws @ ds @ '')''
        \<and> list_all is_space ws \<and> ds \<noteq> [] \<and> list_all is_digit ds \<and> m_group1 m = Some ds"
    unfolding frame_width_pattern_def by (rule frame_words)
next
  fix m assume "m \<in> set (finditer frame_height_pattern code)"
  then show "\<exists>ws ds. py_slice code (m_start m) (m_end m) = ''.frame(height:'' @ ws @ ds @ '')''
        \<and> list_all is_space ws \<and> ds \<noteq> [] \<and> list_all is_digit ds \<and> m_group1 m = Some ds"
    unfolding frame_height_pattern_def by (rule frame_words)
next
  let ?code = "pre @ ''.frame(width: 100, height: 50)'' @ post"
  fix m assume "m \<in> set (finditer frame_width_pattern ?code)
      \<union> set (finditer frame_height_pattern ?code)"
  then have some: "match_at frame_width_pattern ?code (m_start m) \<noteq> None
      \<or> match_at frame_height_pattern ?code (m_start m) \<noteq> None"
    using finditer_match_at[of m frame_width_pattern ?code]
      finditer_match_at[of m frame_height_pattern ?code] by auto
  have len: "length ''.frame(width: 100, height: 50)'' = 30" by simp
  show "m_start m < length pre
      \<or> length pre + length ''.frame(width: 100, height: 50)'' \<le> m_start m"
    unfolding len
  proof (rule ccontr)
    assume a: "\<not> (m_start m < length pre \<or> length pre + 30 \<le> m_start m)"
    define k where "k = m_start m - length pre"
    from a have k: "m_start m = length pre + k" "k < 30" unfolding k_def by linarith+
    from combined_directive_inside[OF k(2), of pre post] some show False
      unfolding k(1) by simp
  qed
next
  have "finditer frame_width_pattern ''.frame(width: 100, height: 50)'' = []"
    "finditer frame_height_pattern ''.frame(width: 100, height: 50)'' = []"
    by code_simp+
  then show "check_hardcoded_frame_sizes
        \<lparr>self_code = ''.frame(width: 100, height: 50)'', self_violations = vs\<rparr>
       = Inr \<lparr>self_code = ''.frame(width: 100, height: 50)'', self_violations = vs\<rparr>"
    by (simp add: check_hardcoded_frame_sizes_appends frame_violations_def)
qed

text \<open>
  In the text \<^verbatim>\<open>.frame(width: 100, height: 50).frame(width: 7)\<close> the only match is the
  directive with one argument at offset 30, after the combined directive; and the
  combined directive alone leaves the analyzer without any violation.
\<close>

theorem frame_size_single_argument_witness:
  "finditer frame_width_pattern (''.frame(width: 100, height: 50)'' @ ''.frame(width: 7)'')
     = [\<lparr>m_start = 30, m_end = 46, m_group1 = Some ''7''\<rparr>]
   \<and> py_slice (''.frame(width: 100, height: 50)'' @ ''.frame(width: 7)'') 30 46
     = ''.frame(width:'' @ '' '' @ ''7'' @ '')''
   \<and> length ([]::string) + length ''.frame(width: 100, height: 50)'' \<le> 30
   \<and> check_hardcoded_frame_sizes
        \<lparr>self_code = ''.frame(width: 100, height: 50)'', self_violations = []\<rparr>
       = Inr \<lparr>self_code = ''.frame(width: 100, height: 50)'', self_violations = []\<rparr>"
proof -
  let ?m = "\<lparr>m_start = 30, m_end = 46, m_group1 = Some ''7''\<rparr>"
  have run: "finditer frame_width_pattern
      (''.frame(width: 100, height: 50)'' @ ''.frame(width: 7)'') = [?m]"
    by code_simp
  have sl: "py_slice (''.frame(width: 100, height: 50)'' @ ''.frame(width: 7)'') 30 46
     = ''.frame(width:'' @ '' '' @ ''7'' @ '')''"
    by code_simp
  note t = frame_size_single_argument[of "''.frame(width: 100, height: 50)'' @ ''.frame(width: 7)''"
      "[]" "''.frame(width: 7)''" "[]"]
  have mem: "?m \<in> set (finditer frame_width_pattern
        ([] @ ''.frame(width: 100, height: 50)'' @ ''.frame(width: 7)''))
      \<union> set (finditer frame_height_pattern
        ([] @ ''.frame(width: 100, height: 50)'' @ ''.frame(width: 7)''))"
    unfolding append_Nil run by simp
  have pos: "length ([]::string) + length ''.frame(width: 100, height: 50)'' \<le> 30"
    using bspec[OF conjunct1[OF conjunct2[OF conjunct2[OF t]]] mem] by simp
  show ?thesis
    by (intro conjI run sl pos conjunct2[OF conjunct2[OF conjunct2[OF t]]])
qed

section \<open>The State enum of a ViewModel\<close>




end
